theory Spec2Isabelle
  imports Main
begin

section \<open>The product service (src/problem5)\<close>

subsection \<open>Data\<close>

text \<open>
  A row of the Product table. Times are counted in ticks of the clock; ids are the
  uuid strings of the table's primary key.
\<close>

record Product =
  product_id :: string
  product_name :: string
  product_sku :: string
  product_description :: string
  createdAt :: nat
  updatedAt :: nat

text \<open>\<^verbatim>\<open>CreateProductDto\<close> and \<^verbatim>\<open>UpdateProductDto\<close> have the same three required fields.\<close>

record CreateProductDto =
  name :: string
  sku :: string
  description :: string

type_synonym UpdateProductDto = CreateProductDto

text \<open>\<^verbatim>\<open>PatchProductDto\<close>: every field may be left out (\<open>None\<close> is JavaScript's undefined).\<close>

record PatchProductDto =
  patch_name :: "string option"
  patch_sku :: "string option"
  patch_description :: "string option"

text \<open>
  The values of a JavaScript number that \<^verbatim>\<open>parseInt\<close> yields on a string of digits: the
  non-negative integers that are doubles, and \<^verbatim>\<open>Infinity\<close>.
\<close>

datatype number = Finite nat | Infinity


text \<open>
  The error codes of Prisma's known request errors that the table can raise: P2002 is the
  unique constraint violation the service looks for, P2025 is "record not found".
\<close>

datatype prisma_code = P2002 | P2025

datatype error =
  NotFoundError string
  | ConflictError string
  | PrismaError prisma_code

subsection \<open>The table behind \<^verbatim>\<open>prisma.product\<close>\<close>

text \<open>
  Modelled from the spec: \<^verbatim>\<open>prisma/schema.prisma\<close> is not among the sources. The README's
  database schema gives the Product model: \<^verbatim>\<open>id String @id @default(uuid())\<close>,
  \<^verbatim>\<open>sku String @unique\<close>, \<^verbatim>\<open>createdAt DateTime @default(now())\<close> and
  \<^verbatim>\<open>updatedAt DateTime @updatedAt\<close>. The table is the list of its rows in insertion
  order. The fresh uuid and the clock reading are inputs of the operations that use them.
\<close>

type_synonym table = "Product list"

definition findUnique :: "string \<Rightarrow> table \<Rightarrow> Product option" where
  "findUnique i db = find (\<lambda>p. product_id p = i) db"

definition prisma_create ::
  "string \<Rightarrow> nat \<Rightarrow> CreateProductDto \<Rightarrow> table \<Rightarrow> (prisma_code + Product) \<times> table" where
  "prisma_create uuid now d db =
     (if \<exists>p \<in> set db. product_id p = uuid \<or> product_sku p = sku d
      then (Inl P2002, db)
      else
        let p = \<lparr>product_id = uuid, product_name = name d, product_sku = sku d,
                 product_description = description d, createdAt = now, updatedAt = now\<rparr>
        in (Inr p, db @ [p]))"

text \<open>
  Prisma leaves a column alone when the data holds undefined for it, and a row alone,
  its \<^verbatim>\<open>updatedAt\<close> included, when the data writes no column at all.
\<close>

definition write_data :: "PatchProductDto \<Rightarrow> nat \<Rightarrow> Product \<Rightarrow> Product" where
  "write_data d now p =
     (if patch_name d = None \<and> patch_sku d = None \<and> patch_description d = None then p
      else
        p\<lparr>product_name := (case patch_name d of None \<Rightarrow> product_name p | Some v \<Rightarrow> v),
          product_sku := (case patch_sku d of None \<Rightarrow> product_sku p | Some v \<Rightarrow> v),
          product_description :=
            (case patch_description d of None \<Rightarrow> product_description p | Some v \<Rightarrow> v),
          updatedAt := now\<rparr>)"

definition prisma_update ::
  "string \<Rightarrow> nat \<Rightarrow> PatchProductDto \<Rightarrow> table \<Rightarrow> (prisma_code + Product) \<times> table" where
  "prisma_update i now d db =
     (case findUnique i db of
        None \<Rightarrow> (Inl P2025, db)
      | Some old \<Rightarrow>
          let new = write_data d now old in
          if \<exists>q \<in> set db. product_id q \<noteq> i \<and> product_sku q = product_sku new
          then (Inl P2002, db)
          else (Inr new, map (\<lambda>q. if product_id q = i then new else q) db))"

definition prisma_delete :: "string \<Rightarrow> table \<Rightarrow> (prisma_code + Product) \<times> table" where
  "prisma_delete i db =
     (case findUnique i db of
        None \<Rightarrow> (Inl P2025, db)
      | Some p \<Rightarrow> (Inr p, filter (\<lambda>q. product_id q \<noteq> i) db))"

subsection \<open>productService\<close>

text \<open>
  Each operation returns its result, \<open>Inl\<close> for a thrown error, together with the table
  it leaves behind. The \<^verbatim>\<open>catch\<close> blocks turn P2002 into a ConflictError and rethrow
  everything else.
\<close>

definition on_prisma_error :: "prisma_code \<Rightarrow> error" where
  "on_prisma_error c =
     (if c = P2002 then ConflictError ''Product with this SKU already exists''
      else PrismaError c)"

definition productService_create ::
  "string \<Rightarrow> nat \<Rightarrow> CreateProductDto \<Rightarrow> table \<Rightarrow> (error + Product) \<times> table" where
  "productService_create uuid now d db =
     (case prisma_create uuid now d db of
        (Inl c, db') \<Rightarrow> (Inl (on_prisma_error c), db')
      | (Inr p, db') \<Rightarrow> (Inr p, db'))"

definition productService_getById :: "string \<Rightarrow> table \<Rightarrow> error + Product" where
  "productService_getById i db =
     (case findUnique i db of
        None \<Rightarrow> Inl (NotFoundError ''Product not found'')
      | Some p \<Rightarrow> Inr p)"

definition productService_update ::
  "string \<Rightarrow> nat \<Rightarrow> UpdateProductDto \<Rightarrow> table \<Rightarrow> (error + Product) \<times> table" where
  "productService_update i now d db =
     (case productService_getById i db of
        Inl e \<Rightarrow> (Inl e, db)
      | Inr _ \<Rightarrow>
          (case prisma_update i now
                  \<lparr>patch_name = Some (name d), patch_sku = Some (sku d),
                   patch_description = Some (description d)\<rparr> db of
             (Inl c, db') \<Rightarrow> (Inl (on_prisma_error c), db')
           | (Inr p, db') \<Rightarrow> (Inr p, db')))"

definition productService_patch ::
  "string \<Rightarrow> nat \<Rightarrow> PatchProductDto \<Rightarrow> table \<Rightarrow> (error + Product) \<times> table" where
  "productService_patch i now d db =
     (case productService_getById i db of
        Inl e \<Rightarrow> (Inl e, db)
      | Inr _ \<Rightarrow>
          (case prisma_update i now d db of
             (Inl c, db') \<Rightarrow> (Inl (on_prisma_error c), db')
           | (Inr p, db') \<Rightarrow> (Inr p, db')))"

text \<open>\<^verbatim>\<open>delete\<close> has no \<^verbatim>\<open>catch\<close>: an error of the table is thrown as it is.\<close>

definition productService_delete :: "string \<Rightarrow> table \<Rightarrow> (error + unit) \<times> table" where
  "productService_delete i db =
     (case productService_getById i db of
        Inl e \<Rightarrow> (Inl e, db)
      | Inr _ \<Rightarrow>
          (case prisma_delete i db of
             (Inl c, db') \<Rightarrow> (Inl (PrismaError c), db')
           | (Inr _, db') \<Rightarrow> (Inr (), db')))"

subsection \<open>Listing: \<^verbatim>\<open>productService.list\<close>\<close>









subsection \<open>Validation: \<^verbatim>\<open>listProductsSchema\<close>\<close>




text \<open>The integer that a string of digits denotes in base ten.\<close>

definition decimal_value :: "string \<Rightarrow> nat" where
  "decimal_value s = foldl (\<lambda>n c. 10 * n + (of_char c - 48)) 0 s"

text \<open>
  A JavaScript number is an IEEE 754 double. An integer of at most 53 bits is a double;
  a longer one is rounded to 53 significant bits, to the nearest double and on a tie to
  the one with the even significand, and to \<^verbatim>\<open>Infinity\<close> from \<open>2^1024\<close> on.
\<close>

fun bit_length :: "nat \<Rightarrow> nat" where
  "bit_length n = (if n = 0 then 0 else Suc (bit_length (n div 2)))"

declare bit_length.simps [simp del]

definition to_double :: "nat \<Rightarrow> number" where
  "to_double n =
     (if bit_length n \<le> 53 then Finite n
      else
        let sh = bit_length n - 53;
            q = n div 2 ^ sh;
            r = n mod 2 ^ sh;
            half = 2 ^ (sh - 1);
            q' = (if half < r \<or> (r = half \<and> odd q) then q + 1 else q);
            m = q' * 2 ^ sh
        in if m < 2 ^ 1024 then Finite m else Infinity)"

text \<open>\<^verbatim>\<open>parseInt(val, 10)\<close> on a string of digits, the only strings the schema passes to it.\<close>

definition parseInt10 :: "string \<Rightarrow> number" where
  "parseInt10 s = to_double (decimal_value s)"



definition offset_transform :: "string option \<Rightarrow> number" where
  "offset_transform val =
     (case val of
        None \<Rightarrow> Finite 0
      | Some s \<Rightarrow> if s = [] then Finite 0 else parseInt10 s)"



subsection \<open>Histories of the store\<close>

text \<open>
  The writing requests a client can send, each with the inputs the service reads from
  its environment (the uuid of a new row, the clock). A reachable store is what a list
  of requests leaves of the empty table.
\<close>

datatype request =
  Create string nat CreateProductDto
  | Update string nat UpdateProductDto
  | Patch string nat PatchProductDto
  | Delete string

fun handle :: "request \<Rightarrow> table \<Rightarrow> table" where
  "handle (Create uuid now d) db = snd (productService_create uuid now d db)"
| "handle (Update i now d) db = snd (productService_update i now d db)"
| "handle (Patch i now d) db = snd (productService_patch i now d db)"
| "handle (Delete i) db = snd (productService_delete i db)"

definition run :: "request list \<Rightarrow> table \<Rightarrow> table" where
  "run rs db = foldl (\<lambda>t r. handle r t) db rs"

text \<open>What the two constraints of the table say: no id and no SKU occurs in two rows.\<close>

definition store_ok :: "table \<Rightarrow> bool" where
  "store_ok db = (distinct (map product_id db) \<and> distinct (map product_sku db))"

text \<open>Two rows for the examples.\<close>

definition mouse :: Product where
  "mouse = \<lparr>product_id = ''u1'', product_name = ''Mouse'', product_sku = ''SKU-001'',
             product_description = ''wireless'', createdAt = 1, updatedAt = 1\<rparr>"

definition keyboard :: Product where
  "keyboard = \<lparr>product_id = ''u2'', product_name = ''Keyboard'', product_sku = ''SKU-002'',
                product_description = ''rgb'', createdAt = 2, updatedAt = 2\<rparr>"


section \<open>The scoreboard engine (design document only)\<close>

text \<open>
  The sources hold no implementation of the scoreboard module, only its design. The two
  components below are written from the words of the specification, sections 3, 4.3 and
  4.4, so that what it promises of them can be checked against what it tells them to do.
\<close>

subsection \<open>LeaderboardIndex\<close>

text \<open>
  Modelled from the spec: the LeaderboardIndex is not implemented under src/. An entry
  is a participant with its score; the rank of the specification's tuple is the entry's
  place in the sequence, and the last-update time of the participant's ScoreRecord is
  kept with the entry, since the tie-break reads it. The index is created empty with
  \<open>N\<close> fixed.
\<close>

record LeaderboardEntry =
  participantId :: string
  score :: nat
  lastUpdate :: nat

record LeaderboardIndex =
  capacity :: nat
  entries :: "LeaderboardEntry list"

definition lb_empty :: "nat \<Rightarrow> LeaderboardIndex" where
  "lb_empty N = \<lparr>capacity = N, entries = []\<rparr>"

text \<open>
  Modelled from the spec: the order of the entries, which the missing LeaderboardIndex
  keeps. "Sorted by score descending; ties broken by earliest last-update time": the
  higher score first, and of two equal scores the one updated earlier.
\<close>

definition ranks_before :: "LeaderboardEntry \<Rightarrow> LeaderboardEntry \<Rightarrow> bool" where
  "ranks_before a b =
     (score b < score a \<or> (score a = score b \<and> lastUpdate a \<le> lastUpdate b))"

text \<open>
  Modelled from the spec: the insertion and the local re-sort of the missing
  LeaderboardIndex. An entry is placed behind every entry that ranks before it (the
  order is stable); the re-sort is the insertion sort built from that, linear on a board
  with one entry out of place.
\<close>

fun place :: "LeaderboardEntry \<Rightarrow> LeaderboardEntry list \<Rightarrow> LeaderboardEntry list" where
  "place e [] = [e]"
| "place e (x # xs) = (if ranks_before x e then x # place e xs else e # x # xs)"

definition resort :: "LeaderboardEntry list \<Rightarrow> LeaderboardEntry list" where
  "resort es = foldr place es []"

text \<open>
  Modelled from the spec: \<^verbatim>\<open>update(participantId, newScore) -> changed\<close> of section 4.3,
  with the time of the score update as a third argument. If the participant is in the
  top N, its score is updated and the board re-sorted. If not, the entry is inserted
  when the board is not full, or when the new score exceeds the score of the last place,
  whose entry is then evicted. The result says whether the sequence of participants on
  the board changed.
\<close>

definition lb_update ::
  "string \<Rightarrow> nat \<Rightarrow> nat \<Rightarrow> LeaderboardIndex \<Rightarrow> bool \<times> LeaderboardIndex" where
  "lb_update p newScore now lb =
     (let es = entries lb;
          e = \<lparr>participantId = p, score = newScore, lastUpdate = now\<rparr>;
          es' =
            (if p \<in> set (map participantId es)
             then resort (map (\<lambda>x. if participantId x = p then e else x) es)
             else if length es < capacity lb then place e es
             else if es \<noteq> [] \<and> score (last es) < newScore then place e (butlast es)
             else es)
      in (map participantId es' \<noteq> map participantId es, lb\<lparr>entries := es'\<rparr>))"

text \<open>
  Modelled from the spec: \<^verbatim>\<open>snapshot()\<close> of the missing LeaderboardIndex, the ordered
  sequence of its entries.
\<close>

definition snapshot :: "LeaderboardIndex \<Rightarrow> LeaderboardEntry list" where
  "snapshot lb = entries lb"

text \<open>The index after a list of updates (participant, new score, time) of the empty board.\<close>

definition lb_after :: "nat \<Rightarrow> (string \<times> nat \<times> nat) list \<Rightarrow> LeaderboardIndex" where
  "lb_after N us = foldl (\<lambda>lb (p, s, t). snd (lb_update p s t lb)) (lb_empty N) us"

text \<open>What the specification asks of the board: sorted, at most \<open>N\<close> entries, no participant twice.\<close>

definition board_ok :: "LeaderboardIndex \<Rightarrow> bool" where
  "board_ok lb = (sorted_wrt ranks_before (entries lb) \<and> length (entries lb) \<le> capacity lb
     \<and> distinct (map participantId (entries lb)))"

subsection \<open>BroadcastHub\<close>

text \<open>
  Modelled from the spec: the BroadcastHub is not implemented under src/. A message is
  a snapshot with its sequence number and timestamp. Every subscription has its own
  queue of bounded capacity and a mark for a gap in its stream. The hub counts the
  sequence numbers and the handles it has given out.
\<close>

record BroadcastMessage =
  sequence :: nat
  leaderboard :: "LeaderboardEntry list"
  timestamp :: nat

record Subscription =
  queue :: "BroadcastMessage list"
  gap :: bool

record BroadcastHub =
  next_sequence :: nat
  next_handle :: nat
  queue_capacity :: nat
  subscriptions :: "nat \<rightharpoonup> Subscription"

definition hub_empty :: "nat \<Rightarrow> BroadcastHub" where
  "hub_empty cap =
     \<lparr>next_sequence = 1, next_handle = 0, queue_capacity = cap, subscriptions = Map.empty\<rparr>"

text \<open>
  Modelled from the spec: \<^verbatim>\<open>subscribe() -> handle\<close> of the missing BroadcastHub
  registers a new observer, with an empty queue and a handle not given out before.
\<close>

definition subscribe :: "BroadcastHub \<Rightarrow> nat \<times> BroadcastHub" where
  "subscribe hub =
     (next_handle hub,
      hub\<lparr>next_handle := next_handle hub + 1,
          subscriptions := (subscriptions hub)(next_handle hub \<mapsto> \<lparr>queue = [], gap = False\<rparr>)\<rparr>)"

text \<open>
  Modelled from the spec: the backpressure policy of the missing BroadcastHub. The
  message joins the queue, and when that overflows the capacity, the oldest queued
  message is dropped and the stream marked as having a gap.
\<close>

definition enqueue :: "nat \<Rightarrow> BroadcastMessage \<Rightarrow> Subscription \<Rightarrow> Subscription" where
  "enqueue cap m sub =
     (let q = queue sub @ [m]
      in if length q \<le> cap then sub\<lparr>queue := q\<rparr> else sub\<lparr>queue := tl q, gap := True\<rparr>)"

text \<open>
  Modelled from the spec: \<^verbatim>\<open>publish(leaderboardSnapshot)\<close> of the missing BroadcastHub
  assigns the next sequence number, constructs the message and delivers it to the queue
  of every observer subscribed now.
\<close>

definition publish :: "LeaderboardEntry list \<Rightarrow> nat \<Rightarrow> BroadcastHub \<Rightarrow> BroadcastHub" where
  "publish snap now hub =
     (let m = \<lparr>sequence = next_sequence hub, leaderboard = snap, timestamp = now\<rparr>
      in hub\<lparr>next_sequence := next_sequence hub + 1,
             subscriptions :=
               (\<lambda>h. map_option (enqueue (queue_capacity hub) m) (subscriptions hub h))\<rparr>)"

text \<open>
  Modelled from the spec: \<^verbatim>\<open>unsubscribe(handle)\<close> of the missing BroadcastHub removes
  the observer, and what was queued for it is discarded.
\<close>

definition unsubscribe :: "nat \<Rightarrow> BroadcastHub \<Rightarrow> BroadcastHub" where
  "unsubscribe h hub = hub\<lparr>subscriptions := (subscriptions hub)(h := None)\<rparr>"

text \<open>
  Modelled from the spec: draining through a handle of the missing BroadcastHub, "in
  the order enqueued": one message at a time from the head of the queue, none when the
  queue is empty or the handle is not subscribed.
\<close>

definition drain :: "nat \<Rightarrow> BroadcastHub \<Rightarrow> BroadcastMessage option \<times> BroadcastHub" where
  "drain h hub =
     (case subscriptions hub h of
        None \<Rightarrow> (None, hub)
      | Some sub \<Rightarrow>
          (case queue sub of
             [] \<Rightarrow> (None, hub)
           | m # q \<Rightarrow>
               (Some m, hub\<lparr>subscriptions := (subscriptions hub)(h \<mapsto> sub\<lparr>queue := q\<rparr>)\<rparr>)))"

text \<open>
  What happens at a hub, in the order it happens, and the sequence numbers that the
  observer holding handle \<open>h\<close> receives while it does.
\<close>

datatype hub_event =
  Subscribe
  | Publish "LeaderboardEntry list" nat
  | Unsubscribe nat
  | Drain nat

fun received :: "nat \<Rightarrow> hub_event list \<Rightarrow> BroadcastHub \<Rightarrow> nat list" where
  "received h [] hub = []"
| "received h (Subscribe # evs) hub = received h evs (snd (subscribe hub))"
| "received h (Publish snap now # evs) hub = received h evs (publish snap now hub)"
| "received h (Unsubscribe k # evs) hub = received h evs (unsubscribe k hub)"
| "received h (Drain k # evs) hub =
     (case drain k hub of
        (None, hub') \<Rightarrow> received h evs hub'
      | (Some m, hub') \<Rightarrow>
          (if k = h then sequence m # received h evs hub' else received h evs hub'))"

text \<open>
  The state a hub keeps: every queue holds its messages in strictly increasing sequence,
  all of them numbered below the next number to assign.
\<close>

definition hub_ok :: "BroadcastHub \<Rightarrow> bool" where
  "hub_ok hub =
     (\<forall>h sub. subscriptions hub h = Some sub \<longrightarrow>
        sorted_wrt (<) (map sequence (queue sub))
        \<and> (\<forall>m \<in> set (queue sub). sequence m < next_sequence hub))"

text \<open>The least number that handle \<open>h\<close> can still receive.\<close>

definition floor_of :: "nat \<Rightarrow> BroadcastHub \<Rightarrow> nat" where
  "floor_of h hub =
     (case subscriptions hub h of
        None \<Rightarrow> next_sequence hub
      | Some sub \<Rightarrow> (case queue sub of [] \<Rightarrow> next_sequence hub | m # _ \<Rightarrow> sequence m))"

section \<open>Properties of the product service\<close>

subsection \<open>Lookups\<close>

lemma findUnique_None_iff: "findUnique i db = None \<longleftrightarrow> i \<notin> set (map product_id db)"
  by (auto simp: findUnique_def find_None_iff)

lemma findUnique_SomeD: "findUnique i db = Some p \<Longrightarrow> p \<in> set db \<and> product_id p = i"
  by (auto simp: findUnique_def find_Some_iff)

text \<open>
  C9: for a product id that is not in the store, \<^verbatim>\<open>update\<close>, \<^verbatim>\<open>patch\<close> and
  \<^verbatim>\<open>delete\<close> throw the NotFoundError of \<^verbatim>\<open>getById\<close>, and the store is left as it was.
\<close>

theorem missing_id_not_found:
  assumes "i \<notin> set (map product_id db)"
  shows "productService_getById i db = Inl (NotFoundError ''Product not found'')
    \<and> productService_update i now d db = (Inl (NotFoundError ''Product not found''), db)
    \<and> productService_patch i now pd db = (Inl (NotFoundError ''Product not found''), db)
    \<and> productService_delete i db = (Inl (NotFoundError ''Product not found''), db)"
proof -
  from assms have "findUnique i db = None"
    by (simp add: findUnique_None_iff)
  then have g: "productService_getById i db = Inl (NotFoundError ''Product not found'')"
    by (simp add: productService_getById_def)
  then show ?thesis
    by (simp add: productService_update_def productService_patch_def productService_delete_def)
qed

theorem missing_id_not_found_witness:
  "''u2'' \<notin> set (map product_id
      [\<lparr>product_id = ''u1'', product_name = ''Mouse'', product_sku = ''SKU-001'',
        product_description = ''wireless'', createdAt = 1, updatedAt = 1\<rparr>])
   \<and> productService_update ''u2'' 7
        \<lparr>name = ''Keyboard'', sku = ''SKU-002'', description = ''rgb''\<rparr>
        [\<lparr>product_id = ''u1'', product_name = ''Mouse'', product_sku = ''SKU-001'',
          product_description = ''wireless'', createdAt = 1, updatedAt = 1\<rparr>]
      = (Inl (NotFoundError ''Product not found''),
         [\<lparr>product_id = ''u1'', product_name = ''Mouse'', product_sku = ''SKU-001'',
           product_description = ''wireless'', createdAt = 1, updatedAt = 1\<rparr>])
   \<and> productService_delete ''u2''
        [\<lparr>product_id = ''u1'', product_name = ''Mouse'', product_sku = ''SKU-001'',
          product_description = ''wireless'', createdAt = 1, updatedAt = 1\<rparr>]
      = (Inl (NotFoundError ''Product not found''),
         [\<lparr>product_id = ''u1'', product_name = ''Mouse'', product_sku = ''SKU-001'',
           product_description = ''wireless'', createdAt = 1, updatedAt = 1\<rparr>])"
  using missing_id_not_found [of "''u2''"
      "[\<lparr>product_id = ''u1'', product_name = ''Mouse'', product_sku = ''SKU-001'',
         product_description = ''wireless'', createdAt = 1, updatedAt = 1\<rparr>]"
      7 "\<lparr>name = ''Keyboard'', sku = ''SKU-002'', description = ''rgb''\<rparr>"]
  by simp

subsection \<open>The constraints are kept\<close>

lemma write_data_id [simp]: "product_id (write_data d now p) = product_id p"
  by (simp add: write_data_def)

lemma replace_row_distinct:
  assumes "distinct (map product_id db)" "distinct (map product_sku db)"
    and "product_id new = i"
    and "\<forall>q \<in> set db. product_id q \<noteq> i \<longrightarrow> product_sku q \<noteq> product_sku new"
  shows "distinct (map product_id (map (\<lambda>q. if product_id q = i then new else q) db))
       \<and> distinct (map product_sku (map (\<lambda>q. if product_id q = i then new else q) db))"
  using assms
proof (induction db)
  case Nil
  then show ?case by simp
next
  case (Cons x xs)
  show ?case
  proof (cases "product_id x = i")
    case True
    with Cons.prems have "i \<notin> product_id ` set xs" by simp
    then have "\<forall>q \<in> set xs. product_id q \<noteq> i" by blast
    then have same: "map (\<lambda>q. if product_id q = i then new else q) xs = xs"
      by (simp add: map_idI)
    from Cons.prems True have "product_sku new \<notin> set (map product_sku xs)"
      using \<open>\<forall>q \<in> set xs. product_id q \<noteq> i\<close> by auto
    with Cons.prems True same show ?thesis by auto
  next
    case False
    from Cons.prems have ih: "distinct (map product_id (map (\<lambda>q. if product_id q = i then new else q) xs))
       \<and> distinct (map product_sku (map (\<lambda>q. if product_id q = i then new else q) xs))"
      by (intro Cons.IH) auto
    from Cons.prems False have "product_sku x \<noteq> product_sku new" by auto
    with Cons.prems False ih show ?thesis by (auto simp: image_iff)
  qed
qed

lemma create_ok: "store_ok db \<Longrightarrow> store_ok (snd (productService_create u t d db))"
  by (auto simp: store_ok_def productService_create_def prisma_create_def Let_def)

lemma prisma_update_ok: "store_ok db \<Longrightarrow> store_ok (snd (prisma_update i t d db))"
  using replace_row_distinct [of db "write_data d t old" i for old]
  by (auto simp: store_ok_def prisma_update_def Let_def split: option.splits dest!: findUnique_SomeD)

lemma prisma_delete_ok: "store_ok db \<Longrightarrow> store_ok (snd (prisma_delete i db))"
  by (auto simp: store_ok_def prisma_delete_def distinct_map_filter split: option.splits)

lemma update_ok: "store_ok db \<Longrightarrow> store_ok (snd (productService_update i t d db))"
  using prisma_update_ok [of db i t "\<lparr>patch_name = Some (name d), patch_sku = Some (sku d),
                   patch_description = Some (description d)\<rparr>"]
  by (auto simp: productService_update_def split: sum.splits prod.splits)

lemma patch_ok: "store_ok db \<Longrightarrow> store_ok (snd (productService_patch i t d db))"
  using prisma_update_ok [of db i t d]
  by (auto simp: productService_patch_def split: sum.splits prod.splits)

lemma delete_ok: "store_ok db \<Longrightarrow> store_ok (snd (productService_delete i db))"
  using prisma_delete_ok [of db i]
  by (auto simp: productService_delete_def split: sum.splits prod.splits)

lemma handle_ok: "store_ok db \<Longrightarrow> store_ok (handle r db)"
  by (cases r) (simp_all add: create_ok update_ok patch_ok delete_ok)

lemma run_ok: "store_ok db \<Longrightarrow> store_ok (run rs db)"
  unfolding run_def by (induction rs arbitrary: db) (simp_all add: handle_ok)

lemma create_conflict:
  assumes "\<exists>p \<in> set db. product_sku p = sku d"
  shows "productService_create u t d db
         = (Inl (ConflictError ''Product with this SKU already exists''), db)"
  using assms by (auto simp: productService_create_def prisma_create_def on_prisma_error_def)

lemma prisma_update_conflict:
  assumes "i \<in> set (map product_id db)"
    and "\<exists>q \<in> set db. product_id q \<noteq> i \<and> product_sku q = s" and "patch_sku d = Some s"
  shows "prisma_update i t d db = (Inl P2002, db)"
proof -
  from assms(1) obtain old where "findUnique i db = Some old"
    using findUnique_None_iff [of i db] by (cases "findUnique i db") auto
  moreover from assms(3) have "product_sku (write_data d t old) = s"
    by (simp add: write_data_def)
  ultimately show ?thesis using assms(2)
    by (auto simp: prisma_update_def Let_def)
qed

text \<open>
  C10: SKU uniqueness is an invariant of the store. In every store that a history of
  requests leaves of the empty table, the SKUs of the rows are pairwise distinct; and
  \<^verbatim>\<open>create\<close>, \<^verbatim>\<open>update\<close> and \<^verbatim>\<open>patch\<close> fail with the ConflictError
  "Product with this SKU already exists", leaving the store as it was, when the SKU they
  write is the SKU of another row.
\<close>

theorem sku_unique:
  "distinct (map product_sku (run rs []))
   \<and> (\<forall>p \<in> set (run rs []). \<forall>q \<in> set (run rs []). p \<noteq> q \<longrightarrow> product_sku p \<noteq> product_sku q)
   \<and> ((\<exists>p \<in> set db. product_sku p = sku d) \<longrightarrow>
        productService_create u t d db
          = (Inl (ConflictError ''Product with this SKU already exists''), db))
   \<and> (i \<in> set (map product_id db) \<and> (\<exists>q \<in> set db. product_id q \<noteq> i \<and> product_sku q = sku d) \<longrightarrow>
        productService_update i t d db
          = (Inl (ConflictError ''Product with this SKU already exists''), db))
   \<and> (i \<in> set (map product_id db) \<and> patch_sku pd = Some s
        \<and> (\<exists>q \<in> set db. product_id q \<noteq> i \<and> product_sku q = s) \<longrightarrow>
        productService_patch i t pd db
          = (Inl (ConflictError ''Product with this SKU already exists''), db))"
proof -
  have "store_ok (run rs [])"
    by (rule run_ok) (simp add: store_ok_def)
  then have d: "distinct (map product_sku (run rs []))"
    by (simp add: store_ok_def)
  then have pw: "\<forall>p \<in> set (run rs []). \<forall>q \<in> set (run rs []). p \<noteq> q \<longrightarrow> product_sku p \<noteq> product_sku q"
    by (meson distinct_map inj_onD)
  have c: "(\<exists>p \<in> set db. product_sku p = sku d) \<longrightarrow>
        productService_create u t d db
          = (Inl (ConflictError ''Product with this SKU already exists''), db)"
    using create_conflict by blast
  have getb: "i \<in> set (map product_id db) \<Longrightarrow> \<exists>p. productService_getById i db = Inr p"
    using findUnique_None_iff [of i db]
    by (cases "findUnique i db") (auto simp: productService_getById_def)
  have up: "i \<in> set (map product_id db) \<and> (\<exists>q \<in> set db. product_id q \<noteq> i \<and> product_sku q = sku d) \<longrightarrow>
        productService_update i t d db
          = (Inl (ConflictError ''Product with this SKU already exists''), db)"
  proof
    assume a: "i \<in> set (map product_id db) \<and> (\<exists>q \<in> set db. product_id q \<noteq> i \<and> product_sku q = sku d)"
    then have "prisma_update i t \<lparr>patch_name = Some (name d), patch_sku = Some (sku d),
                   patch_description = Some (description d)\<rparr> db = (Inl P2002, db)"
      by (intro prisma_update_conflict [where s = "sku d"]) simp_all
    with getb a show "productService_update i t d db
          = (Inl (ConflictError ''Product with this SKU already exists''), db)"
      by (auto simp: productService_update_def on_prisma_error_def)
  qed
  have pa: "i \<in> set (map product_id db) \<and> patch_sku pd = Some s
        \<and> (\<exists>q \<in> set db. product_id q \<noteq> i \<and> product_sku q = s) \<longrightarrow>
        productService_patch i t pd db
          = (Inl (ConflictError ''Product with this SKU already exists''), db)"
  proof
    assume a: "i \<in> set (map product_id db) \<and> patch_sku pd = Some s
        \<and> (\<exists>q \<in> set db. product_id q \<noteq> i \<and> product_sku q = s)"
    then have "prisma_update i t pd db = (Inl P2002, db)"
      by (intro prisma_update_conflict [where s = s]) simp_all
    with getb a show "productService_patch i t pd db
          = (Inl (ConflictError ''Product with this SKU already exists''), db)"
      by (auto simp: productService_patch_def on_prisma_error_def)
  qed
  from d pw c up pa show ?thesis by blast
qed

theorem sku_unique_witness:
  "run [Create ''u1'' 1 \<lparr>name = ''Mouse'', sku = ''SKU-001'', description = ''wireless''\<rparr>,
        Create ''u2'' 2 \<lparr>name = ''Keyboard'', sku = ''SKU-002'', description = ''rgb''\<rparr>,
        Update ''u2'' 3 \<lparr>name = ''Keyboard'', sku = ''SKU-001'', description = ''rgb''\<rparr>] []
     = [mouse, keyboard]
   \<and> distinct (map product_sku [mouse, keyboard])
   \<and> (\<exists>p \<in> set [mouse, keyboard]. product_sku p = sku \<lparr>name = ''Pad'', sku = ''SKU-001'', description = ''soft''\<rparr>)
   \<and> productService_create ''u3'' 4 \<lparr>name = ''Pad'', sku = ''SKU-001'', description = ''soft''\<rparr> [mouse, keyboard]
       = (Inl (ConflictError ''Product with this SKU already exists''), [mouse, keyboard])
   \<and> ''u2'' \<in> set (map product_id [mouse, keyboard])
   \<and> (\<exists>q \<in> set [mouse, keyboard]. product_id q \<noteq> ''u2'' \<and> product_sku q = ''SKU-001'')
   \<and> productService_update ''u2'' 4 \<lparr>name = ''Pad'', sku = ''SKU-001'', description = ''soft''\<rparr> [mouse, keyboard]
       = (Inl (ConflictError ''Product with this SKU already exists''), [mouse, keyboard])
   \<and> productService_patch ''u2'' 4
         \<lparr>patch_name = None, patch_sku = Some ''SKU-001'', patch_description = None\<rparr> [mouse, keyboard]
       = (Inl (ConflictError ''Product with this SKU already exists''), [mouse, keyboard])"
proof -
  have r: "run [Create ''u1'' 1 \<lparr>name = ''Mouse'', sku = ''SKU-001'', description = ''wireless''\<rparr>,
        Create ''u2'' 2 \<lparr>name = ''Keyboard'', sku = ''SKU-002'', description = ''rgb''\<rparr>,
        Update ''u2'' 3 \<lparr>name = ''Keyboard'', sku = ''SKU-001'', description = ''rgb''\<rparr>] []
     = [mouse, keyboard]"
    by (simp add: run_def productService_create_def prisma_create_def productService_update_def
        productService_getById_def findUnique_def prisma_update_def write_data_def
        on_prisma_error_def mouse_def keyboard_def Let_def)
  have h: "''u2'' \<in> set (map product_id [mouse, keyboard])
     \<and> (\<exists>q \<in> set [mouse, keyboard]. product_id q \<noteq> ''u2'' \<and> product_sku q = ''SKU-001'')"
    by (simp add: mouse_def keyboard_def)
  show ?thesis
    using r h
      sku_unique [where rs = "[Create ''u1'' 1 \<lparr>name = ''Mouse'', sku = ''SKU-001'', description = ''wireless''\<rparr>,
        Create ''u2'' 2 \<lparr>name = ''Keyboard'', sku = ''SKU-002'', description = ''rgb''\<rparr>,
        Update ''u2'' 3 \<lparr>name = ''Keyboard'', sku = ''SKU-001'', description = ''rgb''\<rparr>]"
        and db = "[mouse, keyboard]"
        and d = "\<lparr>name = ''Pad'', sku = ''SKU-001'', description = ''soft''\<rparr>"
        and u = "''u3''" and t = 4 and i = "''u2''"
        and pd = "\<lparr>patch_name = None, patch_sku = Some ''SKU-001'', patch_description = None\<rparr>"
        and s = "''SKU-001''"]
    by (simp add: mouse_def keyboard_def)
qed

subsection \<open>Numbers\<close>

lemma bit_length_0 [simp]: "bit_length 0 = 0"
  by (simp add: bit_length.simps)

lemma bit_length_pos: "n \<noteq> 0 \<Longrightarrow> bit_length n = Suc (bit_length (n div 2))"
  by (subst bit_length.simps) simp






subsection \<open>Pagination\<close>









text \<open>
  The rounding at work: \<open>2^53 + 1\<close> is no double, and the offset parsed from its digits
  is \<open>2^53\<close>; \<open>2^53 + 3\<close> lies between two doubles as well and goes to the even one above.
\<close>

lemma bit_length_example:
  "bit_length 9007199254740993 = 54 \<and> bit_length 9007199254740995 = 54"
  by (simp add: bit_length_pos)

lemma offset_rounded_example:
  "offset_transform (Some ''9007199254740993'') = Finite 9007199254740992
   \<and> offset_transform (Some ''9007199254740995'') = Finite 9007199254740996"
  by (simp add: offset_transform_def parseInt10_def decimal_value_def to_double_def
      bit_length_example Let_def)

section \<open>Properties of the scoreboard engine as specified\<close>

subsection \<open>The order of the board\<close>

lemma ranks_before_total: "\<not> ranks_before a b \<Longrightarrow> ranks_before b a"
  by (auto simp: ranks_before_def)

lemma ranks_before_trans: "ranks_before a b \<Longrightarrow> ranks_before b c \<Longrightarrow> ranks_before a c"
  by (auto simp: ranks_before_def)

lemma set_place [simp]: "set (place e xs) = insert e (set xs)"
  by (induction xs) auto

lemma length_place [simp]: "length (place e xs) = Suc (length xs)"
  by (induction xs) auto

lemma sorted_place:
  "sorted_wrt ranks_before xs \<Longrightarrow> sorted_wrt ranks_before (place e xs)"
proof (induction xs)
  case Nil
  then show ?case by simp
next
  case (Cons x xs)
  show ?case
  proof (cases "ranks_before x e")
    case True
    with Cons show ?thesis by auto
  next
    case False
    then have ex: "ranks_before e x" by (rule ranks_before_total)
    have "\<forall>y \<in> set xs. ranks_before e y"
    proof
      fix y assume "y \<in> set xs"
      with Cons.prems have "ranks_before x y" by simp
      with ex show "ranks_before e y" by (rule ranks_before_trans)
    qed
    with False ex Cons.prems show ?thesis by simp
  qed
qed

lemma ids_place [simp]:
  "set (map participantId (place e xs)) = insert (participantId e) (set (map participantId xs))"
  by simp

lemma distinct_ids_place:
  "distinct (map participantId xs) \<Longrightarrow> participantId e \<notin> set (map participantId xs)
   \<Longrightarrow> distinct (map participantId (place e xs))"
  by (induction xs) auto

lemma sorted_resort: "sorted_wrt ranks_before (resort es)"
  unfolding resort_def by (induction es) (simp_all add: sorted_place)

lemma length_resort [simp]: "length (resort es) = length es"
  unfolding resort_def by (induction es) simp_all

lemma set_resort [simp]: "set (resort es) = set es"
  unfolding resort_def by (induction es) simp_all

lemma distinct_ids_resort:
  "distinct (map participantId es) \<Longrightarrow> distinct (map participantId (resort es))"
  unfolding resort_def
proof (induction es)
  case Nil
  then show ?case by simp
next
  case (Cons x xs)
  then have "participantId x \<notin> set (map participantId (foldr place xs []))"
    using set_resort [of xs] by (simp add: resort_def)
  with Cons show ?case by (simp add: distinct_ids_place)
qed

lemma distinct_ids_replace:
  "distinct (map participantId es) \<Longrightarrow> participantId e = p \<Longrightarrow>
   distinct (map participantId (map (\<lambda>x. if participantId x = p then e else x) es))"
proof -
  assume d: "distinct (map participantId es)" and p: "participantId e = p"
  have "map participantId (map (\<lambda>x. if participantId x = p then e else x) es) = map participantId es"
    using p by (induction es) auto
  with d show ?thesis by (simp only:)
qed

lemma sorted_butlast: "sorted_wrt P xs \<Longrightarrow> sorted_wrt P (butlast xs)"
  by (simp add: butlast_conv_take)

lemma distinct_ids_butlast:
  "distinct (map participantId xs) \<Longrightarrow> distinct (map participantId (butlast xs))"
proof -
  assume "distinct (map participantId xs)"
  then have "distinct (butlast (map participantId xs))" by (rule distinct_butlast)
  then show ?thesis by (simp add: map_butlast)
qed

lemma capacity_update [simp]: "capacity (snd (lb_update p s t lb)) = capacity lb"
  by (simp add: lb_update_def Let_def)

lemma lb_update_ok:
  assumes "board_ok lb"
  shows "board_ok (snd (lb_update p s t lb))"
proof -
  let ?e = "\<lparr>participantId = p, score = s, lastUpdate = t\<rparr>"
  let ?es = "entries lb"
  from assms have so: "sorted_wrt ranks_before ?es" and le: "length ?es \<le> capacity lb"
    and di: "distinct (map participantId ?es)"
    by (simp_all add: board_ok_def)
  consider (member) "p \<in> set (map participantId ?es)"
    | (room) "p \<notin> set (map participantId ?es)" "length ?es < capacity lb"
    | (evict) "p \<notin> set (map participantId ?es)" "\<not> length ?es < capacity lb"
        "?es \<noteq> [] \<and> score (last ?es) < s"
    | (keep) "p \<notin> set (map participantId ?es)" "\<not> length ?es < capacity lb"
        "\<not> (?es \<noteq> [] \<and> score (last ?es) < s)"
    by blast
  then show ?thesis
  proof cases
    case member
    then have "entries (snd (lb_update p s t lb))
        = resort (map (\<lambda>x. if participantId x = p then ?e else x) ?es)"
      by (simp add: lb_update_def Let_def)
    moreover have "distinct (map participantId
        (resort (map (\<lambda>x. if participantId x = p then ?e else x) ?es)))"
      by (intro distinct_ids_resort distinct_ids_replace di) simp
    ultimately show ?thesis using le
      by (simp add: board_ok_def sorted_resort)
  next
    case room
    then have "entries (snd (lb_update p s t lb)) = place ?e ?es"
      by (simp add: lb_update_def Let_def)
    with room so di show ?thesis
      by (simp add: board_ok_def sorted_place distinct_ids_place)
  next
    case evict
    then have eq: "entries (snd (lb_update p s t lb)) = place ?e (butlast ?es)"
      by (simp add: lb_update_def Let_def)
    from evict(1) have "p \<notin> set (map participantId (butlast ?es))"
      by (auto dest: in_set_butlastD)
    moreover from evict(3) le have "Suc (length (butlast ?es)) \<le> capacity lb"
      by (cases ?es) simp_all
    ultimately show ?thesis using eq so di
      by (simp add: board_ok_def sorted_place sorted_butlast distinct_ids_place
          distinct_ids_butlast del: length_butlast)
  next
    case keep
    then have "entries (snd (lb_update p s t lb)) = ?es"
      by (auto simp: lb_update_def Let_def)
    with assms show ?thesis by (simp add: board_ok_def)
  qed
qed

lemma lb_after_ok: "board_ok lb \<Longrightarrow> board_ok (foldl (\<lambda>lb (p, s, t). snd (lb_update p s t lb)) lb us)"
  by (induction us arbitrary: lb) (auto simp: lb_update_ok)

text \<open>
  C2: in every state of the LeaderboardIndex that updates of the empty index reach, the
  sequence that \<^verbatim>\<open>snapshot()\<close> returns is sorted by score descending, ties broken by the
  earlier last-update time, has at most \<open>N\<close> entries, and holds each participant id at
  most once.
\<close>

theorem snapshot_sorted_bounded:
  "sorted_wrt ranks_before (snapshot (lb_after N us))
   \<and> length (snapshot (lb_after N us)) \<le> N
   \<and> distinct (map participantId (snapshot (lb_after N us)))"
proof -
  have "board_ok (lb_empty N)" by (simp add: board_ok_def lb_empty_def)
  then have "board_ok (lb_after N us)" unfolding lb_after_def by (rule lb_after_ok)
  moreover have "capacity (lb_after N us) = N"
    unfolding lb_after_def by (induction us rule: rev_induct) (auto simp: lb_empty_def)
  ultimately show ?thesis by (simp add: board_ok_def snapshot_def)
qed

theorem snapshot_sorted_bounded_witness:
  "snapshot (lb_after 2 [(''A'', 90, 1), (''B'', 80, 2), (''C'', 85, 3)])
     = [\<lparr>participantId = ''A'', score = 90, lastUpdate = 1\<rparr>,
        \<lparr>participantId = ''C'', score = 85, lastUpdate = 3\<rparr>]
   \<and> sorted_wrt ranks_before
        [\<lparr>participantId = ''A'', score = 90, lastUpdate = 1\<rparr>,
         \<lparr>participantId = ''C'', score = 85, lastUpdate = 3\<rparr>]"
  using snapshot_sorted_bounded [of 2 "[(''A'', 90, 1), (''B'', 80, 2), (''C'', 85, 3)]"]
  by (simp add: lb_after_def lb_empty_def lb_update_def snapshot_def ranks_before_def Let_def)

subsection \<open>The queues of the hub\<close>

lemma hub_ok_empty: "hub_ok (hub_empty cap)"
  by (simp add: hub_ok_def hub_empty_def)

lemma hub_ok_subscribe: "hub_ok hub \<Longrightarrow> hub_ok (snd (subscribe hub))"
  by (auto simp: hub_ok_def subscribe_def)

lemma hub_ok_unsubscribe: "hub_ok hub \<Longrightarrow> hub_ok (unsubscribe k hub)"
  by (auto simp: hub_ok_def unsubscribe_def)

lemma sorted_tl: "sorted_wrt P xs \<Longrightarrow> sorted_wrt P (tl xs)"
  by (cases xs) simp_all

lemma queue_enqueue:
  "queue (enqueue cap m sub) = queue sub @ [m] \<or> queue (enqueue cap m sub) = tl (queue sub @ [m])"
  by (simp add: enqueue_def Let_def)

lemma enqueue_sorted:
  assumes "sorted_wrt (<) (map sequence (queue sub))"
    and "\<forall>x \<in> set (queue sub). sequence x < sequence m"
  shows "sorted_wrt (<) (map sequence (queue (enqueue cap m sub)))"
proof -
  from assms have s: "sorted_wrt (<) (map sequence (queue sub @ [m]))"
    by (simp add: sorted_wrt_append)
  then have "sorted_wrt (<) (map sequence (tl (queue sub @ [m])))"
    using sorted_tl [of "(<)" "map sequence (queue sub @ [m])"] by (simp add: map_tl)
  with s queue_enqueue [of cap m sub] show ?thesis by metis
qed

lemma enqueue_set:
  "set (queue (enqueue cap m sub)) \<subseteq> insert m (set (queue sub))"
proof -
  have "set (tl (queue sub @ [m])) \<subseteq> set (queue sub @ [m])"
    by (cases "queue sub @ [m]") auto
  with queue_enqueue [of cap m sub] show ?thesis by auto
qed

lemma hub_ok_publish:
  assumes "hub_ok hub"
  shows "hub_ok (publish snap now hub)"
  unfolding hub_ok_def
proof (intro allI impI)
  fix h sub'
  let ?m = "\<lparr>sequence = next_sequence hub, leaderboard = snap, timestamp = now\<rparr>"
  assume "subscriptions (publish snap now hub) h = Some sub'"
  then obtain sub where sub: "subscriptions hub h = Some sub"
    and sub': "sub' = enqueue (queue_capacity hub) ?m sub"
    by (auto simp: publish_def Let_def)
  from assms sub have so: "sorted_wrt (<) (map sequence (queue sub))"
    and lt: "\<forall>x \<in> set (queue sub). sequence x < next_sequence hub"
    by (auto simp: hub_ok_def)
  from so lt have "sorted_wrt (<) (map sequence (queue sub'))"
    unfolding sub' by (intro enqueue_sorted) simp_all
  moreover have "\<forall>x \<in> set (queue sub'). sequence x < next_sequence (publish snap now hub)"
  proof
    fix x assume "x \<in> set (queue sub')"
    with enqueue_set [of "queue_capacity hub" ?m sub] sub'
    have "x = ?m \<or> x \<in> set (queue sub)" by auto
    with lt show "sequence x < next_sequence (publish snap now hub)"
      by (auto simp: publish_def Let_def less_SucI)
  qed
  ultimately show "sorted_wrt (<) (map sequence (queue sub'))
      \<and> (\<forall>x \<in> set (queue sub'). sequence x < next_sequence (publish snap now hub))"
    by simp
qed

lemma drain_idle: "subscriptions hub k = None \<Longrightarrow> drain k hub = (None, hub)"
  by (simp add: drain_def)

lemma drain_nothing:
  "subscriptions hub k = Some sub \<Longrightarrow> queue sub = [] \<Longrightarrow> drain k hub = (None, hub)"
  by (simp add: drain_def)

lemma drain_deliver:
  "subscriptions hub k = Some sub \<Longrightarrow> queue sub = m # q \<Longrightarrow>
   drain k hub = (Some m, hub\<lparr>subscriptions := (subscriptions hub)(k \<mapsto> sub\<lparr>queue := q\<rparr>)\<rparr>)"
  by (simp add: drain_def)

lemma hub_ok_drain:
  assumes "hub_ok hub"
  shows "hub_ok (snd (drain k hub))"
proof (cases "subscriptions hub k")
  case None
  with assms show ?thesis by (simp add: drain_idle)
next
  case (Some sub)
  show ?thesis
  proof (cases "queue sub")
    case Nil
    with Some assms show ?thesis by (simp add: drain_nothing)
  next
    case (Cons m q)
    from assms Some have "sorted_wrt (<) (map sequence (queue sub))
      \<and> (\<forall>x \<in> set (queue sub). sequence x < next_sequence hub)"
      unfolding hub_ok_def by blast
    with Cons have "sorted_wrt (<) (map sequence (m # q))"
      and "\<forall>x \<in> set (m # q). sequence x < next_sequence hub"
      by simp_all
    then have "sorted_wrt (<) (map sequence q)" and "\<forall>x \<in> set q. sequence x < next_sequence hub"
      by simp_all
    with assms show ?thesis
      unfolding drain_deliver [OF Some Cons] hub_ok_def by auto
  qed
qed

subsection \<open>What an observer can still receive\<close>

lemma floor_le_next: "hub_ok hub \<Longrightarrow> floor_of h hub \<le> next_sequence hub"
  by (auto simp: floor_of_def hub_ok_def split: option.splits list.splits intro: less_imp_le)

lemma floor_subscribe: "hub_ok hub \<Longrightarrow> floor_of h hub \<le> floor_of h (snd (subscribe hub))"
  using floor_le_next [of hub h]
  by (auto simp: floor_of_def subscribe_def split: option.splits list.splits)

lemma floor_unsubscribe: "hub_ok hub \<Longrightarrow> floor_of h hub \<le> floor_of h (unsubscribe k hub)"
  using floor_le_next [of hub h]
  by (auto simp: floor_of_def unsubscribe_def split: option.splits list.splits)

lemma floor_publish:
  assumes "hub_ok hub"
  shows "floor_of h hub \<le> floor_of h (publish snap now hub)"
proof (cases "subscriptions hub h")
  case None
  then show ?thesis by (simp add: floor_of_def publish_def Let_def)
next
  case (Some sub)
  let ?m = "\<lparr>sequence = next_sequence hub, leaderboard = snap, timestamp = now\<rparr>"
  from assms Some have so: "sorted_wrt (<) (map sequence (queue sub))"
    and lt: "\<forall>x \<in> set (queue sub). sequence x < next_sequence hub"
    unfolding hub_ok_def by blast+
  have sub': "subscriptions (publish snap now hub) h = Some (enqueue (queue_capacity hub) ?m sub)"
    using Some by (simp add: publish_def Let_def)
  have nx: "next_sequence (publish snap now hub) = Suc (next_sequence hub)"
    by (simp add: publish_def Let_def)
  show ?thesis
  proof (cases "queue sub")
    case Nil
    then show ?thesis
      using Some sub' nx by (simp add: floor_of_def enqueue_def Let_def)
  next
    case (Cons x xs)
    with so lt have "\<forall>y \<in> set (xs @ [?m]). sequence x < sequence y" by auto
    then have "xs @ [?m] = [] \<or> sequence x < sequence (hd (xs @ [?m]))"
      by (cases "xs @ [?m]") simp_all
    then show ?thesis
      using Some sub' nx Cons
      by (cases xs) (auto simp: floor_of_def enqueue_def Let_def)
  qed
qed

lemma floor_drain_other:
  "k \<noteq> h \<Longrightarrow> floor_of h (snd (drain k hub)) = floor_of h hub"
  by (auto simp: floor_of_def drain_def split: option.splits list.splits)

lemma floor_drain_none:
  "drain k hub = (None, hub') \<Longrightarrow> hub' = hub"
  by (auto simp: drain_def split: option.splits list.splits)

lemma floor_drain_same:
  assumes "hub_ok hub" "drain h hub = (Some m, hub')"
  shows "floor_of h hub = sequence m \<and> sequence m < floor_of h hub'"
proof -
  from assms(2) obtain sub q where sub: "subscriptions hub h = Some sub" and q: "queue sub = m # q"
    and hub': "hub' = hub\<lparr>subscriptions := (subscriptions hub)(h \<mapsto> sub\<lparr>queue := q\<rparr>)\<rparr>"
    by (auto simp: drain_def split: option.splits list.splits)
  from assms(1) sub have "sorted_wrt (<) (map sequence (queue sub))
      \<and> (\<forall>x \<in> set (queue sub). sequence x < next_sequence hub)"
    unfolding hub_ok_def by blast
  with q have "\<forall>y \<in> set q. sequence m < sequence y" and "sequence m < next_sequence hub"
    by simp_all
  then have "sequence m < floor_of h hub'"
    unfolding hub' by (cases q) (simp_all add: floor_of_def)
  moreover from sub q have "floor_of h hub = sequence m"
    by (simp add: floor_of_def)
  ultimately show ?thesis by simp
qed

lemma received_above:
  "hub_ok hub \<Longrightarrow>
   sorted_wrt (<) (received h evs hub) \<and> (\<forall>n \<in> set (received h evs hub). floor_of h hub \<le> n)"
proof (induction evs arbitrary: hub)
  case Nil
  then show ?case by simp
next
  case (Cons ev evs)
  show ?case
  proof (cases ev)
    case Subscribe
    from Cons.prems have "hub_ok (snd (subscribe hub))" by (rule hub_ok_subscribe)
    from Cons.IH [OF this] floor_subscribe [OF Cons.prems, of h] Subscribe
    show ?thesis by (auto intro: le_trans)
  next
    case (Publish snap now)
    from Cons.prems have "hub_ok (publish snap now hub)" by (rule hub_ok_publish)
    from Cons.IH [OF this] floor_publish [OF Cons.prems, of h snap now] Publish
    show ?thesis by (auto intro: le_trans)
  next
    case (Unsubscribe k)
    from Cons.prems have "hub_ok (unsubscribe k hub)" by (rule hub_ok_unsubscribe)
    from Cons.IH [OF this] floor_unsubscribe [OF Cons.prems, of h k] Unsubscribe
    show ?thesis by (auto intro: le_trans)
  next
    case (Drain k)
    obtain r hub' where d: "drain k hub = (r, hub')" by (cases "drain k hub")
    from Cons.prems have "hub_ok (snd (drain k hub))" by (rule hub_ok_drain)
    with d have ok': "hub_ok hub'" by simp
    note ih = Cons.IH [OF ok']
    show ?thesis
    proof (cases r)
      case None
      with d have "hub' = hub" by (auto dest: floor_drain_none)
      with ih Drain d None show ?thesis by simp
    next
      case (Some m)
      show ?thesis
      proof (cases "k = h")
        case True
        from floor_drain_same [OF Cons.prems] d Some True
        have "floor_of h hub = sequence m" and "sequence m < floor_of h hub'" by auto
        with ih Drain d Some True show ?thesis by (auto intro: less_le_trans)
      next
        case False
        then have "floor_of h hub' = floor_of h hub"
          using floor_drain_other [of k h hub] d by simp
        with ih Drain d Some False show ?thesis by simp
      qed
    qed
  qed
qed

text \<open>
  C4: whatever happens at a BroadcastHub, the sequence numbers of the messages that one
  subscriber receives through its handle are strictly increasing: no number comes twice
  and none is followed by a smaller one.
\<close>

theorem received_strictly_increasing:
  "sorted_wrt (<) (received h evs (hub_empty cap)) \<and> distinct (received h evs (hub_empty cap))"
proof -
  have "sorted_wrt (<) (received h evs (hub_empty cap))"
    using received_above [OF hub_ok_empty] by blast
  then show ?thesis by (simp add: strict_sorted_iff)
qed

theorem received_strictly_increasing_witness:
  "received 0 [Subscribe, Publish [] 1, Publish [] 2, Subscribe, Publish [] 3, Drain 0, Drain 1,
               Drain 0, Publish [] 4, Drain 0, Drain 0, Unsubscribe 0, Drain 0] (hub_empty 2)
     = [2, 3, 4]
   \<and> sorted_wrt (<) [2, 3, 4 :: nat] \<and> distinct [2, 3, 4 :: nat]"
proof -
  have e: "received 0 [Subscribe, Publish [] 1, Publish [] 2, Subscribe, Publish [] 3, Drain 0, Drain 1,
               Drain 0, Publish [] 4, Drain 0, Drain 0, Unsubscribe 0, Drain 0] (hub_empty 2)
     = [2, 3, 4]"
    by code_simp
  show ?thesis
    using e received_strictly_increasing [of 0 "[Subscribe, Publish [] 1, Publish [] 2, Subscribe,
               Publish [] 3, Drain 0, Drain 1,
               Drain 0, Publish [] 4, Drain 0, Drain 0, Unsubscribe 0, Drain 0]" 2]
    by simp
qed

end
